theory Spec2Isabelle
  imports Main "HOL-Library.Word"
begin

unbundle bit_operations_syntax

section \<open>BigInt arithmetic of ShardableUUID.ts\<close>

text \<open>
  The identifier is computed on JavaScript \<open>BigInt\<close> values: unbounded integers whose
  \<open>&\<close>, \<open>|\<close>, \<open><<\<close> and \<open>>>\<close> act on the infinite two's complement representation.
  HOL's \<open>int\<close> with \<open>AND\<close>, \<open>OR\<close>, \<open>push_bit\<close> and \<open>drop_bit\<close> is exactly that.
  The \<open>number\<close> arguments (type, shard, seq, msec, sec) are modelled as \<open>int\<close> too:
  the interface of the class is about integers, on which \<open>BigInt(n)\<close> and
  \<open>Number(b)\<close> (below 2^53) are the identity.
\<close>

definition shl :: "int \<Rightarrow> nat \<Rightarrow> int" where
  "shl x n = push_bit n x"

definition shr :: "int \<Rightarrow> nat \<Rightarrow> int" where
  "shr x n = drop_bit n x"

definition DATA_BIT :: nat where "DATA_BIT = 62"
definition DATA_HEAD_BIT :: nat where "DATA_HEAD_BIT = 11"
definition SHARD_BIT :: nat where "SHARD_BIT = 10"
definition SHARD_SLOT :: int where "SHARD_SLOT = 1024"
definition MAX_SEQ :: int where "MAX_SEQ = 127"
definition MAX_TYPE :: int where "MAX_TYPE = 1023"

subsection \<open>The data bit set: lines 45-49 of generate and 75-84 of parse\<close>

text \<open>
  \<open>pack_dataBits\<close> is the assignment sequence of \<open>generate\<close> that starts from
  \<open>BigInt(1)\<close> (the wall bit) and appends msec, sec, type and seq.
\<close>

definition pack_dataBits :: "int \<Rightarrow> int \<Rightarrow> int \<Rightarrow> int \<Rightarrow> int" where
  "pack_dataBits ms s ty sq =
     (let dataBits = 1;
          dataBits = shl dataBits 10 OR ms;
          dataBits = shl dataBits 34 OR s;
          dataBits = shl dataBits 10 OR ty;
          dataBits = shl dataBits 7 OR sq
      in dataBits)"

record fields =
  f_type :: int
  f_seq :: int
  f_msec :: int
  f_sec :: int

text \<open>The mask-and-shift sequence of \<open>parse\<close>, applied to the unmixed buffer.\<close>

definition unpack_dataBits :: "int \<Rightarrow> fields" where
  "unpack_dataBits buffer0 =
     (let sq = buffer0 AND 127;
          buffer1 = shr buffer0 7;
          ty = buffer1 AND 1023;
          buffer2 = shr buffer1 10;
          s = buffer2 AND 17179869183;
          buffer3 = shr buffer2 34;
          ms = buffer3 AND 1023
      in \<lparr>f_type = ty, f_seq = sq, f_msec = ms, f_sec = s\<rparr>)"

subsection \<open>mixbit and unmixbit\<close>

text \<open>
  The \<open>for (let i = 1; i <= 10; i++)\<close> loops are recursive functions on the loop
  variable and the buffers. The shift amounts \<open>62 - 11 - i * 5\<close>, \<open>10 - i\<close> and
  \<open>72 - 11 - i * 6\<close> stay positive or zero while \<open>i \<le> 10\<close>, so they are natural numbers.
\<close>

function mixbit_loop :: "int \<Rightarrow> int \<Rightarrow> nat \<Rightarrow> int \<Rightarrow> int" where
  "mixbit_loop dataBits shard i buffer =
     (if i \<le> 10 then
        (let buffer1 = shl buffer 5 OR (shr dataBits (DATA_BIT - DATA_HEAD_BIT - i * 5) AND 31);
             buffer2 = shl buffer1 1 OR (shr shard (SHARD_BIT - i) AND 1)
         in mixbit_loop dataBits shard (i + 1) buffer2)
      else buffer)"
  by pat_completeness auto
termination
  by (relation "measure (\<lambda>(d, s, i, b). 11 - i)") auto

declare mixbit_loop.simps [simp del]

definition mixbit :: "int \<Rightarrow> int \<Rightarrow> int" where
  "mixbit dataBits shard =
     (let buffer = shr dataBits (DATA_BIT - DATA_HEAD_BIT);
          buffer = mixbit_loop dataBits shard 1 buffer
      in shl buffer 1 OR (dataBits AND 1))"

record unmixed =
  u_data :: int
  u_shard :: int

function unmixbit_loop :: "int \<Rightarrow> nat \<Rightarrow> int \<Rightarrow> int \<Rightarrow> int \<times> int" where
  "unmixbit_loop uuid i dataBuffer shardBuffer =
     (if i \<le> 10 then
        (let mixedDataBit = DATA_BIT + SHARD_BIT;
             dataChunkAndShardBit = shr uuid (mixedDataBit - DATA_HEAD_BIT - i * 6) AND 63;
             dataBuffer1 = shl dataBuffer 5 OR shr dataChunkAndShardBit 1;
             shardBuffer1 = shl shardBuffer 1 OR (dataChunkAndShardBit AND 1)
         in unmixbit_loop uuid (i + 1) dataBuffer1 shardBuffer1)
      else (dataBuffer, shardBuffer))"
  by pat_completeness auto
termination
  by (relation "measure (\<lambda>(u, i, d, s). 11 - i)") auto

declare unmixbit_loop.simps [simp del]

definition unmixbit :: "int \<Rightarrow> unmixed" where
  "unmixbit uuid =
     (let mixedDataBit = DATA_BIT + SHARD_BIT;
          dataBuffer = shr uuid (mixedDataBit - DATA_HEAD_BIT);
          shardBuffer = 0;
          (dataBuffer, shardBuffer) = unmixbit_loop uuid 1 dataBuffer shardBuffer;
          dataBuffer = shl dataBuffer 1 OR (uuid AND 1)
      in \<lparr>u_data = dataBuffer, u_shard = shardBuffer\<rparr>)"

section \<open>The codec: encodeBase64UrlSafe and decodeBase64UrlSafe\<close>

text \<open>
  The codec goes through three library facilities of the platform that are not part of
  the repository: \<open>BigInt.prototype.toString(16)\<close> and \<open>BigInt(string)\<close> of ECMAScript, and
  \<open>Buffer.from(string, encoding)\<close> and \<open>Buffer.prototype.toString(encoding)\<close> of Node.js for
  the encodings \<open>'hex'\<close> and \<open>'base64'\<close>. They are modelled here as Node.js documents and
  implements them; a byte is an integer from 0 to 255; strings are lists of 8-bit
  characters.
\<close>

datatype error = RangeError | SyntaxError | StoreError

subsection \<open>Hexadecimal\<close>

definition hex_digit :: "int \<Rightarrow> char" where
  "hex_digit d = (if d < 10 then char_of (48 + d) else char_of (87 + d))"

text \<open>The digits of a non-negative integer, most significant first.\<close>

function hex_digits :: "int \<Rightarrow> string" where
  "hex_digits n = (if n < 16 then [hex_digit n] else hex_digits (n div 16) @ [hex_digit (n mod 16)])"
  by pat_completeness auto
termination
  by (relation "measure nat") auto

declare hex_digits.simps [simp del]

text \<open>\<open>uuid.toString(16)\<close>: lower-case digits, no leading zero, a minus sign for a negative value.\<close>

definition BigInt_toString16 :: "int \<Rightarrow> string" where
  "BigInt_toString16 x = (if x < 0 then CHR ''-'' # hex_digits (- x) else hex_digits x)"

definition unhex :: "char \<Rightarrow> int option" where
  "unhex c =
     (let k = (of_char c :: int) in
      if 48 \<le> k \<and> k \<le> 57 then Some (k - 48)
      else if 97 \<le> k \<and> k \<le> 102 then Some (k - 87)
      else if 65 \<le> k \<and> k \<le> 70 then Some (k - 55)
      else None)"

text \<open>
  \<open>Buffer.from(s, 'hex')\<close> decodes two characters at a time and stops at the first pair that
  is not two hexadecimal digits; a trailing single character is dropped.
\<close>

fun Buffer_from_hex :: "string \<Rightarrow> int list" where
  "Buffer_from_hex (a # b # rest) =
     (case unhex a of
        None \<Rightarrow> []
      | Some x \<Rightarrow> (case unhex b of
          None \<Rightarrow> []
        | Some y \<Rightarrow> (x * 16 + y) # Buffer_from_hex rest))"
| "Buffer_from_hex _ = []"

definition Buffer_toString_hex :: "int list \<Rightarrow> string" where
  "Buffer_toString_hex bytes = concat (map (\<lambda>b. [hex_digit (b div 16), hex_digit (b mod 16)]) bytes)"

fun hex_value :: "string \<Rightarrow> int \<Rightarrow> int option" where
  "hex_value [] acc = Some acc"
| "hex_value (c # cs) acc = (case unhex c of None \<Rightarrow> None | Some d \<Rightarrow> hex_value cs (acc * 16 + d))"

text \<open>
  \<open>BigInt('0x' + h)\<close>: the value of the hexadecimal digits \<open>h\<close>; a \<open>SyntaxError\<close> when there is
  no digit after the prefix or when \<open>h\<close> holds anything else than hexadecimal digits.
\<close>

definition BigInt_0x :: "string \<Rightarrow> error + int" where
  "BigInt_0x h =
     (if h = [] then Inl SyntaxError
      else case hex_value h 0 of None \<Rightarrow> Inl SyntaxError | Some v \<Rightarrow> Inr v)"

subsection \<open>Base64\<close>

definition base64_char :: "int \<Rightarrow> char" where
  "base64_char n =
     (if n < 26 then char_of (65 + n)
      else if n < 52 then char_of (71 + n)
      else if n < 62 then char_of (n - 4)
      else if n = 62 then CHR ''+'' else CHR ''/'')"

text \<open>\<open>buf.toString('base64')\<close>: the standard alphabet, padded with \<open>=\<close> to a multiple of four.\<close>

fun Buffer_toString_base64 :: "int list \<Rightarrow> string" where
  "Buffer_toString_base64 (a # b # c # rest) =
     [base64_char (a div 4), base64_char ((a mod 4) * 16 + b div 16),
      base64_char ((b mod 16) * 4 + c div 64), base64_char (c mod 64)]
     @ Buffer_toString_base64 rest"
| "Buffer_toString_base64 [a, b] =
     [base64_char (a div 4), base64_char ((a mod 4) * 16 + b div 16),
      base64_char ((b mod 16) * 4), CHR ''='']"
| "Buffer_toString_base64 [a] =
     [base64_char (a div 4), base64_char ((a mod 4) * 16), CHR ''='', CHR ''='']"
| "Buffer_toString_base64 [] = []"

text \<open>
  Node's decoding table: the standard alphabet, and the URL-safe \<open>-\<close> and \<open>_\<close> as well.
\<close>

definition unbase64 :: "char \<Rightarrow> int option" where
  "unbase64 c =
     (let k = (of_char c :: int) in
      if 65 \<le> k \<and> k \<le> 90 then Some (k - 65)
      else if 97 \<le> k \<and> k \<le> 122 then Some (k - 71)
      else if 48 \<le> k \<and> k \<le> 57 then Some (k + 4)
      else if c = CHR ''+'' \<or> c = CHR ''-'' then Some 62
      else if c = CHR ''/'' \<or> c = CHR ''_'' then Some 63
      else None)"

fun decode_sextets :: "int list \<Rightarrow> int list" where
  "decode_sextets (s1 # s2 # s3 # s4 # rest) =
     [s1 * 4 + s2 div 16, (s2 mod 16) * 16 + s3 div 4, (s3 mod 4) * 64 + s4] @ decode_sextets rest"
| "decode_sextets [s1, s2, s3] = [s1 * 4 + s2 div 16, (s2 mod 16) * 16 + s3 div 4]"
| "decode_sextets [s1, s2] = [s1 * 4 + s2 div 16]"
| "decode_sextets _ = []"

text \<open>
  \<open>Buffer.from(s, 'base64')\<close> never throws: it stops at the first \<open>=\<close>, skips every
  character that is not in the table, and turns the sextets that remain into bytes; the
  bits of an incomplete last byte are dropped.
\<close>

definition Buffer_from_base64 :: "string \<Rightarrow> int list" where
  "Buffer_from_base64 s = decode_sextets (List.map_filter unbase64 (takeWhile (\<lambda>c. c \<noteq> CHR ''='') s))"

subsection \<open>The two codec methods\<close>

text \<open>\<open>s.replace(/c/g, d)\<close> for a single character \<open>c\<close>.\<close>

definition replace_all :: "char \<Rightarrow> char \<Rightarrow> string \<Rightarrow> string" where
  "replace_all c d s = map (\<lambda>x. if x = c then d else x) s"

definition encodeBase64UrlSafe :: "int \<Rightarrow> string" where
  "encodeBase64UrlSafe uuid =
     replace_all (CHR ''='') (CHR ''.'')
       (replace_all (CHR ''/'') (CHR ''_'')
         (replace_all (CHR ''+'') (CHR ''-'')
           (Buffer_toString_base64 (Buffer_from_hex (BigInt_toString16 uuid)))))"

definition decodeBase64UrlSafe :: "string \<Rightarrow> error + int" where
  "decodeBase64UrlSafe base64Uuid =
     BigInt_0x (Buffer_toString_hex (Buffer_from_base64
       (replace_all (CHR ''.'') (CHR ''='')
         (replace_all (CHR ''_'') (CHR ''/'')
           (replace_all (CHR ''-'') (CHR ''+'') base64Uuid)))))"

section \<open>The sequence counter in the shared store\<close>

text \<open>
  The store is the Redis server behind \<open>RedisClient.client(redisOptions)\<close>. Its state is
  the key space, a flag telling whether commands reach the server, and the log of the
  commands that were sent. The counter keys are only written by the script below, so
  their values are integers. A command that cannot be carried out rejects the promise
  the client returned for it.
\<close>

datatype store_op = Eval string | Del string

record store =
  kv :: "string \<rightharpoonup> int"
  up :: bool
  sent :: "store_op list"

definition dec_digit :: "int \<Rightarrow> char" where
  "dec_digit d = char_of (48 + d)"

function dec_digits :: "int \<Rightarrow> string" where
  "dec_digits n = (if n < 10 then [dec_digit n] else dec_digits (n div 10) @ [dec_digit (n mod 10)])"
  by pat_completeness auto
termination
  by (relation "measure nat") auto

declare dec_digits.simps [simp del]

text \<open>
  The template literal \<open>${n}\<close> of an integer \<open>n\<close> of magnitude below 2^53, where the
  text is the decimal expansion. Beyond that JavaScript prints the shortest digits that
  read back as the same number, and the exponent form from 1e21 on, which this function
  does not follow: the keys of such types and shards are spelled differently by the code.
  The properties below take the key of a type and a shard as it is, whatever its spelling.
\<close>

definition Number_toString :: "int \<Rightarrow> string" where
  "Number_toString n = (if n < 0 then CHR ''-'' # dec_digits (- n) else dec_digits n)"

definition seqKey :: "int \<Rightarrow> int \<Rightarrow> string" where
  "seqKey ty shard = ''uuid:'' @ Number_toString ty @ '':'' @ Number_toString shard"

text \<open>
  The Lua script of \<open>seq\<close>, run atomically by the server on the key space:
  \<open>KEYS[1]\<close> is the key and \<open>ARGV[1]\<close> the largest sequence number.
\<close>

definition seq_script :: "(string \<rightharpoonup> int) \<Rightarrow> string \<Rightarrow> int \<Rightarrow> int \<times> (string \<rightharpoonup> int)" where
  "seq_script db key argv1 =
     (let sq = (case db key of
                  None \<Rightarrow> 0
                | Some v \<Rightarrow> if v \<ge> argv1 then 0 else v + 1)
      in (sq, db(key \<mapsto> sq)))"

definition redis_eval :: "store \<Rightarrow> string \<Rightarrow> int \<Rightarrow> (error + int) \<times> store" where
  "redis_eval st key argv1 =
     (if up st then
        (let (sq, db) = seq_script (kv st) key argv1
         in (Inr sq, st\<lparr>kv := db, sent := sent st @ [Eval key]\<rparr>))
      else (Inl StoreError, st\<lparr>sent := sent st @ [Eval key]\<rparr>))"

definition redis_del :: "store \<Rightarrow> string \<Rightarrow> (error + unit) \<times> store" where
  "redis_del st key =
     (if up st then (Inr (), st\<lparr>kv := (kv st)(key := None), sent := sent st @ [Del key]\<rparr>)
      else (Inl StoreError, st\<lparr>sent := sent st @ [Del key]\<rparr>))"

text \<open>\<open>seq\<close> returns what it awaits from \<open>redis.eval\<close>, a value or the rejection.\<close>

definition seq :: "store \<Rightarrow> int \<Rightarrow> int \<Rightarrow> (error + int) \<times> store" where
  "seq st ty shard = redis_eval st (seqKey ty shard) MAX_SEQ"

text \<open>
  \<open>resetSeq\<close> calls \<open>redis.del\<close> and neither awaits nor returns its promise: the body
  ends normally, so the promise of \<open>resetSeq\<close> is fulfilled whatever becomes of the command.
\<close>

definition resetSeq :: "store \<Rightarrow> int \<Rightarrow> int \<Rightarrow> (error + unit) \<times> store" where
  "resetSeq st ty shard =
     (let (dropped, st') = redis_del st (seqKey ty shard)
      in (Inr (), st'))"

section \<open>generate and parse\<close>

text \<open>
  \<open>stamp\<close> reads the clock: \<open>now\<close> is \<open>Date.getTime()\<close>, the milliseconds since the epoch;
  \<open>getMilliseconds()\<close> is its millisecond of the second and \<open>Math.floor(getTime() / 1000)\<close>
  its whole seconds.
\<close>

record stamped =
  st_msec :: int
  st_sec :: int

definition stamp :: "int \<Rightarrow> stamped" where
  "stamp now = \<lparr>st_msec = now mod 1000, st_sec = now div 1000\<rparr>"

text \<open>
  The remainder operator \<open>%\<close> of JavaScript on integers: the result has the sign of
  the dividend.
\<close>

definition js_rem :: "int \<Rightarrow> int \<Rightarrow> int" where
  "js_rem a b = sgn a * (\<bar>a\<bar> mod \<bar>b\<bar>)"

record generated =
  g_uuid :: string
  g_shard :: int
  g_sec :: int
  g_msec :: int
  g_seq :: int

text \<open>
  \<open>generate\<close> in an environment: \<open>hint\<close> is the value the call of \<open>shardingHint()\<close>
  returns, \<open>now\<close> the clock, \<open>st\<close> the store. A thrown error or a rejected await
  is the \<open>Inl\<close> result; the store is returned as the call left it.
\<close>

definition generate :: "int \<Rightarrow> int \<Rightarrow> store \<Rightarrow> int \<Rightarrow> (error + generated) \<times> store" where
  "generate hint now st ty =
     (if ty > MAX_TYPE then (Inl RangeError, st)
      else
        (let shard = js_rem hint SHARD_SLOT in
         case seq st ty shard of
           (Inl e, st') \<Rightarrow> (Inl e, st')
         | (Inr sq, st') \<Rightarrow>
             (let stmp = stamp now;
                  dataBits = pack_dataBits (st_msec stmp) (st_sec stmp) ty sq;
                  uuid = encodeBase64UrlSafe (mixbit dataBits shard)
              in (Inr \<lparr>g_uuid = uuid, g_shard = shard, g_sec = st_sec stmp,
                       g_msec = st_msec stmp, g_seq = sq\<rparr>, st'))))"

datatype uuid_arg = BigIntArg int | StringArg string

record parsed =
  p_type :: int
  p_shard :: int
  p_seq :: int
  p_msec :: int
  p_sec :: int

definition parse :: "uuid_arg \<Rightarrow> error + parsed" where
  "parse uuid =
     (case (case uuid of BigIntArg b \<Rightarrow> Inr b | StringArg s \<Rightarrow> decodeBase64UrlSafe s) of
        Inl e \<Rightarrow> Inl e
      | Inr source \<Rightarrow>
          (let um = unmixbit source;
               f = unpack_dataBits (u_data um)
           in Inr \<lparr>p_type = f_type f, p_shard = u_shard um, p_seq = f_seq f,
                    p_msec = f_msec f, p_sec = f_sec f\<rparr>))"

section \<open>Notions the properties are stated with\<close>

text \<open>\<open>n\<close> consecutive calls of \<open>seq\<close> for one key, with the results in call order.\<close>

fun seq_calls :: "nat \<Rightarrow> store \<Rightarrow> int \<Rightarrow> int \<Rightarrow> (error + int) list \<times> store" where
  "seq_calls 0 st ty shard = ([], st)"
| "seq_calls (Suc n) st ty shard =
     (let (r, st') = seq st ty shard;
          (rs, st'') = seq_calls n st' ty shard
      in (r # rs, st''))"

text \<open>
  Base64 text in the sense of RFC 4648: characters of the standard alphabet, then at most
  two padding characters, four characters for every three bytes.
\<close>

definition base64_alphabet :: "char \<Rightarrow> bool" where
  "base64_alphabet c =
     (let k = (of_char c :: int) in
      (65 \<le> k \<and> k \<le> 90) \<or> (97 \<le> k \<and> k \<le> 122) \<or> (48 \<le> k \<and> k \<le> 57)
      \<or> c = CHR ''+'' \<or> c = CHR ''/'')"

definition valid_base64 :: "string \<Rightarrow> bool" where
  "valid_base64 s =
     (let body = takeWhile (\<lambda>c. c \<noteq> CHR ''='') s;
          pad = dropWhile (\<lambda>c. c \<noteq> CHR ''='') s
      in length s mod 4 = 0 \<and> list_all base64_alphabet body
         \<and> list_all (\<lambda>c. c = CHR ''='') pad \<and> length pad \<le> 2)"

text \<open>The stored counter of a key is absent or within the seven bits of the field.\<close>

definition seq_in_range :: "store \<Rightarrow> string \<Rightarrow> bool" where
  "seq_in_range st key = (case kv st key of None \<Rightarrow> True | Some v \<Rightarrow> 0 \<le> v \<and> v \<le> 127)"


text \<open>
  The counter step in the words of the specification: an absent value gives 0, a value
  of 127 or more gives 0, any other value its successor. \<open>after_seq\<close> is the store once
  the step has been written back and logged.
\<close>

definition spec_next :: "int option \<Rightarrow> int" where
  "spec_next stored = (case stored of None \<Rightarrow> 0 | Some v \<Rightarrow> if v \<ge> 127 then 0 else v + 1)"

definition after_seq :: "store \<Rightarrow> string \<Rightarrow> store" where
  "after_seq st key = st\<lparr>kv := (kv st)(key \<mapsto> spec_next (kv st key)), sent := sent st @ [Eval key]\<rparr>"

text \<open>One round of the loop of \<open>mixbit\<close>, with the constants evaluated; used in the proofs only.\<close>

definition mix_step :: "int \<Rightarrow> int \<Rightarrow> nat \<Rightarrow> int \<Rightarrow> int" where
  "mix_step p s i b = shl (shl b 5 OR (shr p (51 - i * 5) AND 31)) 1 OR (shr s (10 - i) AND 1)"

text \<open>Predicates and abbreviations of the codec proofs.\<close>

definition is_hex_digit :: "char \<Rightarrow> bool" where
  "is_hex_digit c = (\<exists>d. 0 \<le> d \<and> d < 16 \<and> c = hex_digit d)"

definition is_byte :: "int \<Rightarrow> bool" where
  "is_byte b = (0 \<le> b \<and> b < 256)"

definition base64_text_char :: "char \<Rightarrow> bool" where
  "base64_text_char c = (c = CHR ''='' \<or> (\<exists>n. 0 \<le> n \<and> n < 64 \<and> c = base64_char n))"

definition is_sextet :: "int \<Rightarrow> bool" where
  "is_sextet n = (0 \<le> n \<and> n < 64)"

definition sextets_of :: "string \<Rightarrow> int list" where
  "sextets_of s = List.map_filter unbase64 (takeWhile (\<lambda>c. c \<noteq> CHR ''='') s)"

definition url_there_and_back :: "char \<Rightarrow> char" where
  "url_there_and_back c =
     (let d = (if c = CHR ''+'' then CHR ''-'' else c);
          d = (if d = CHR ''/'' then CHR ''_'' else d);
          d = (if d = CHR ''='' then CHR ''.'' else d);
          d = (if d = CHR ''-'' then CHR ''+'' else d);
          d = (if d = CHR ''_'' then CHR ''/'' else d);
          d = (if d = CHR ''.'' then CHR ''='' else d)
      in d)"

section \<open>Shifts and masks\<close>

lemma shr_shl_or: "shr (shl X n OR (y AND mask n)) n = X"
  unfolding shl_def shr_def by (rule bit_eqI) (auto simp: bit_simps)

lemma and_mask_shl_or: "(shl X n OR (y AND mask n)) AND mask n = y AND mask n"
  unfolding shl_def shr_def by (rule bit_eqI) (auto simp: bit_simps)

lemma shl_shr_or: "shl (shr x (k + n)) n OR (shr x k AND mask n) = shr x k"
  unfolding shl_def shr_def by (rule bit_eqI) (auto simp: bit_simps)

lemma shr_shr: "shr (shr x a) b = shr x (a + b)"
  unfolding shr_def by (simp add: ac_simps)

lemma shr_and_mask: "shr (x AND mask (n + k)) k = shr x k AND mask n"
  unfolding shl_def shr_def by (rule bit_eqI) (auto simp: bit_simps)

lemma and_mask_mask: "((x::int) AND mask m) AND mask n = x AND mask (min m n)"
  by (rule bit_eqI) (auto simp: bit_simps)

lemma masks: "(1::int) = mask 1" "(31::int) = mask 5" "(63::int) = mask 6" "(127::int) = mask 7"
  "(1023::int) = mask 10" "(17179869183::int) = mask 34"
  by (simp_all add: mask_eq_exp_minus_1)

lemma mixbit_loop_unfold:
  "mixbit_loop p s i b = (if i \<le> 10 then mixbit_loop p s (i + 1) (mix_step p s i b) else b)"
proof -
  have e: "(62::nat) - 11 = 51" by simp
  show ?thesis
    by (subst mixbit_loop.simps)
       (simp only: mix_step_def Let_def DATA_BIT_def DATA_HEAD_BIT_def SHARD_BIT_def e)
qed

lemma shr_mix_step: "shr (mix_step p s i b) 6 = b"
proof -
  have "shr (mix_step p s i b) 6 = shr (shr (mix_step p s i b) 1) 5"
    by (simp only: shr_shr) simp
  also have "\<dots> = b" unfolding mix_step_def masks by (simp only: shr_shl_or)
  finally show ?thesis .
qed

lemma chunk_mix_step_data: "shr (mix_step p s i b AND 63) 1 = shr p (51 - i * 5) AND 31"
proof -
  have "shr (mix_step p s i b AND mask (5 + 1)) 1 = shr (mix_step p s i b) 1 AND mask 5"
    by (rule shr_and_mask)
  also have "\<dots> = shr p (51 - i * 5) AND mask 5"
    unfolding mix_step_def masks by (simp only: shr_shl_or and_mask_shl_or)
  finally show ?thesis by (simp add: masks)
qed

lemma chunk_mix_step_shard: "(mix_step p s i b AND 63) AND 1 = shr s (10 - i) AND 1"
proof -
  have "(mix_step p s i b AND mask 6) AND mask 1 = mix_step p s i b AND mask 1"
    by (simp only: and_mask_mask min_def) simp
  also have "\<dots> = shr s (10 - i) AND mask 1"
    unfolding mix_step_def masks by (simp only: and_mask_shl_or)
  finally show ?thesis unfolding masks .
qed

lemma shr_mixbit_loop: "i \<le> 11 \<Longrightarrow> shr (mixbit_loop p s i b) (6 * (11 - i)) = b"
proof (induction "11 - i" arbitrary: i b)
  case 0
  then have "i = 11" by simp
  then show ?case by (subst mixbit_loop_unfold) (simp add: shr_def)
next
  case (Suc n)
  then have i: "i \<le> 10" and n: "n = 11 - (i + 1)" by simp_all
  have "shr (mixbit_loop p s (i + 1) (mix_step p s i b)) (6 * (11 - (i + 1))) = mix_step p s i b"
    using Suc.hyps(1)[OF n] i by simp
  moreover have "6 * (11 - i) = 6 * (11 - (i + 1)) + 6" using i by simp
  ultimately have "shr (mixbit_loop p s (i + 1) (mix_step p s i b)) (6 * (11 - i)) = b"
    by (simp only: shr_shr[symmetric] shr_mix_step)
  then show ?case using i by (subst mixbit_loop_unfold) simp
qed


lemma unmixbit_loop_unfold:
  "unmixbit_loop u i d sh =
     (if i \<le> 10 then
        unmixbit_loop u (i + 1) (shl d 5 OR shr (shr u (61 - i * 6) AND 63) 1)
          (shl sh 1 OR ((shr u (61 - i * 6) AND 63) AND 1))
      else (d, sh))"
proof -
  have e: "(62::nat) + 10 - 11 = 61" by simp
  show ?thesis
    by (subst unmixbit_loop.simps)
       (simp only: Let_def DATA_BIT_def DATA_HEAD_BIT_def SHARD_BIT_def e)
qed

lemma unmixbit_loop_mixbit_loop:
  assumes "1 \<le> i" "i \<le> 11"
  shows "unmixbit_loop (shl (mixbit_loop p s i b) 1 OR (p AND 1)) i
           (shr p (56 - i * 5)) (shr s (11 - i)) = (shr p 1, s)"
  using assms
proof (induction "11 - i" arbitrary: i b)
  case 0
  then have "i = 11" by simp
  then show ?case by (subst unmixbit_loop_unfold) (simp add: shr_def)
next
  case (Suc n)
  then have i: "i \<le> 10" "1 \<le> i" and n: "n = 11 - (i + 1)" by simp_all
  let ?u = "shl (mixbit_loop p s i b) 1 OR (p AND 1)"
  let ?b' = "mix_step p s i b"
  have loop: "mixbit_loop p s i b = mixbit_loop p s (i + 1) ?b'"
    using i by (subst mixbit_loop_unfold) simp
  have "61 - i * 6 = 1 + 6 * (11 - (i + 1))" using i by arith
  then have "shr ?u (61 - i * 6) = shr (shr ?u 1) (6 * (11 - (i + 1)))"
    by (simp only: shr_shr)
  also have "shr ?u 1 = mixbit_loop p s i b"
    unfolding masks by (simp only: shr_shl_or)
  also have "shr (mixbit_loop p s i b) (6 * (11 - (i + 1))) = ?b'"
    unfolding loop using i by (intro shr_mixbit_loop) simp
  finally have chunk: "shr ?u (61 - i * 6) = ?b'" .
  have d: "shl (shr p (56 - i * 5)) 5 OR (shr p (51 - i * 5) AND 31) = shr p (56 - (i + 1) * 5)"
  proof -
    have "56 - i * 5 = (51 - i * 5) + 5" "56 - (i + 1) * 5 = 51 - i * 5" using i by simp_all
    then show ?thesis unfolding masks by (simp only: shl_shr_or)
  qed
  have sh: "shl (shr s (11 - i)) 1 OR (shr s (10 - i) AND 1) = shr s (11 - (i + 1))"
  proof -
    have "11 - i = (10 - i) + 1" "11 - (i + 1) = 10 - i" using i by simp_all
    then show ?thesis unfolding masks by (simp only: shl_shr_or)
  qed
  have "unmixbit_loop ?u i (shr p (56 - i * 5)) (shr s (11 - i))
        = unmixbit_loop ?u (i + 1) (shr p (56 - (i + 1) * 5)) (shr s (11 - (i + 1)))"
    using i by (subst unmixbit_loop_unfold)
      (simp only: chunk chunk_mix_step_data chunk_mix_step_shard d sh if_True)
  also have "\<dots> = (shr p 1, s)"
    unfolding loop using Suc.hyps(1)[OF n, of ?b'] i by simp
  finally show ?case .
qed

lemma and_mask_id: "0 \<le> (x::int) \<Longrightarrow> x < 2 ^ n \<Longrightarrow> x AND mask n = x"
  by (simp add: take_bit_eq_mask[symmetric] take_bit_int_eq_self)

lemma shr_small: "0 \<le> x \<Longrightarrow> x < 2 ^ n \<Longrightarrow> shr x n = 0"
  by (simp add: shr_def drop_bit_eq_div)

lemma unmixbit_mixbit_any:
  assumes "0 \<le> s" "s \<le> 1023"
  shows "unmixbit (mixbit p s) = \<lparr>u_data = p, u_shard = s\<rparr>"
proof -
  let ?m = "mixbit_loop p s 1 (shr p 51)"
  let ?u = "shl ?m 1 OR (p AND 1)"
  have e: "(62::nat) - 11 = 51" "(62::nat) + 10 - 11 = 61" by simp_all
  have u: "mixbit p s = ?u"
    by (simp only: mixbit_def Let_def DATA_BIT_def DATA_HEAD_BIT_def e)
  have u1: "shr ?u 1 = ?m" unfolding masks by (simp only: shr_shl_or)
  have "shr ?u 61 = shr (shr ?u 1) (6 * (11 - 1))" by (simp only: shr_shr) simp
  also have "\<dots> = shr p 51" unfolding u1 by (rule shr_mixbit_loop) simp
  finally have head: "shr ?u 61 = shr p (56 - 1 * 5)" by simp
  have sh0: "0 = shr s (11 - 1)" using assms by (simp add: shr_small)
  have loop: "unmixbit_loop ?u 1 (shr ?u 61) 0 = (shr p 1, s)"
    unfolding head by (subst sh0) (rule unmixbit_loop_mixbit_loop, simp_all)
  have low: "?u AND 1 = p AND 1" unfolding masks by (simp only: and_mask_shl_or)
  have "shl (shr p (0 + 1)) 1 OR (shr p 0 AND mask 1) = shr p 0" by (rule shl_shr_or)
  then have whole: "shl (shr p 1) 1 OR (p AND 1) = p" by (simp add: shr_def)
  show ?thesis
    unfolding u
    by (simp only: unmixbit_def Let_def DATA_BIT_def DATA_HEAD_BIT_def SHARD_BIT_def e loop
        prod.case low whole)
qed

lemma unpack_pack_fields:
  assumes "0 \<le> ms" "ms \<le> 1023" "0 \<le> s" "s \<le> 2 ^ 34 - 1" "0 \<le> ty" "ty \<le> 1023"
    "0 \<le> sq" "sq \<le> 127"
  shows "unpack_dataBits (pack_dataBits ms s ty sq) = \<lparr>f_type = ty, f_seq = sq, f_msec = ms, f_sec = s\<rparr>"
proof -
  have a: "ms AND mask 10 = ms" "s AND mask 34 = s" "ty AND mask 10 = ty" "sq AND mask 7 = sq"
    using assms by (simp_all add: and_mask_id)
  define d1 where "d1 = shl 1 10 OR (ms AND mask 10)"
  define d2 where "d2 = shl d1 34 OR (s AND mask 34)"
  define d3 where "d3 = shl d2 10 OR (ty AND mask 10)"
  define d4 where "d4 = shl d3 7 OR (sq AND mask 7)"
  have p: "pack_dataBits ms s ty sq = d4"
    unfolding pack_dataBits_def Let_def d4_def d3_def d2_def d1_def a ..
  have s1: "d4 AND mask 7 = sq AND mask 7" "shr d4 7 = d3"
    unfolding d4_def by (simp_all only: and_mask_shl_or shr_shl_or)
  have s2: "d3 AND mask 10 = ty AND mask 10" "shr d3 10 = d2"
    unfolding d3_def by (simp_all only: and_mask_shl_or shr_shl_or)
  have s3: "d2 AND mask 34 = s AND mask 34" "shr d2 34 = d1"
    unfolding d2_def by (simp_all only: and_mask_shl_or shr_shl_or)
  have s4: "d1 AND mask 10 = ms AND mask 10"
    unfolding d1_def by (simp_all only: and_mask_shl_or shr_shl_or)
  show ?thesis
    unfolding p unpack_dataBits_def Let_def masks s1 s2 s3 s4 a ..
qed

section \<open>The bit mixer and the bit packer invert\<close>

text \<open>
  Claim C2. For every shard \<open>s\<close> from 0 to 1023 and every payload \<open>p\<close> (any integer, so in
  particular every 62-bit payload whose top bit is set), \<open>unmixbit (mixbit p s)\<close> returns
  exactly \<open>p\<close> and \<open>s\<close>. Hence no two pairs of a payload and a shard in that range are
  mixed into the same identifier: the interleaving loses no information.
\<close>

theorem unmixbit_mixbit:
  assumes "0 \<le> s" and "s \<le> 1023"
  shows "unmixbit (mixbit p s) = \<lparr>u_data = p, u_shard = s\<rparr>
         \<and> (\<forall>p' s'. 0 \<le> s' \<and> s' \<le> 1023 \<and> mixbit p' s' = mixbit p s \<longrightarrow> p' = p \<and> s' = s)"
proof
  show rt: "unmixbit (mixbit p s) = \<lparr>u_data = p, u_shard = s\<rparr>"
    using assms by (rule unmixbit_mixbit_any)
  show "\<forall>p' s'. 0 \<le> s' \<and> s' \<le> 1023 \<and> mixbit p' s' = mixbit p s \<longrightarrow> p' = p \<and> s' = s"
  proof (intro allI impI)
    fix p' s'
    assume h: "0 \<le> s' \<and> s' \<le> 1023 \<and> mixbit p' s' = mixbit p s"
    then have "unmixbit (mixbit p' s') = \<lparr>u_data = p', u_shard = s'\<rparr>"
      by (intro unmixbit_mixbit_any) simp_all
    with h rt show "p' = p \<and> s' = s" by simp
  qed
qed

text \<open>The payload of the witness is the one packed from msec 999, sec 1700000000, type 1, seq 5.\<close>

theorem unmixbit_mixbit_witness:
  "(0::int) \<le> 1023 \<and> (1023::int) \<le> 1023
   \<and> unmixbit (mixbit 4555613845485256837 1023) = \<lparr>u_data = 4555613845485256837, u_shard = 1023\<rparr>
   \<and> mixbit 4555613845485256837 1023 = 4664978990752818799243
   \<and> mixbit 4555613845485256837 1023 \<noteq> mixbit 4555613845485256837 1022"
proof -
  have m: "mixbit 4555613845485256837 1023 = 4664978990752818799243" by code_simp
  have n: "mixbit 4555613845485256837 1023 \<noteq> mixbit 4555613845485256837 1022" by code_simp
  show ?thesis
    using unmixbit_mixbit [of 1023 4555613845485256837] m n by simp
qed

text \<open>
  Claim C3. For msec from 0 to 1023, sec from 0 to 2^34 - 1, type from 0 to 1023 and seq
  from 0 to 127, the shift-and-or sequence of \<open>generate\<close> (wall bit 1, then msec in 10 bits,
  sec in 34, type in 10, seq in 7) followed by the mask-and-shift sequence of \<open>parse\<close>
  (masks 127, 1023, 2^34 - 1 = 17179869183, 1023) gives back the same four fields.
\<close>

theorem unpack_pack:
  assumes "0 \<le> ms" and "ms \<le> 1023" and "0 \<le> s" and "s \<le> 2 ^ 34 - 1"
    and "0 \<le> ty" and "ty \<le> 1023" and "0 \<le> sq" and "sq \<le> 127"
  shows "unpack_dataBits (pack_dataBits ms s ty sq)
         = \<lparr>f_type = ty, f_seq = sq, f_msec = ms, f_sec = s\<rparr>"
  using assms by (rule unpack_pack_fields)

theorem unpack_pack_witness:
  "(0::int) \<le> 999 \<and> (999::int) \<le> 1023 \<and> (0::int) \<le> 1700000000 \<and> (1700000000::int) \<le> 2 ^ 34 - 1
   \<and> (0::int) \<le> 1 \<and> (1::int) \<le> 1023 \<and> (0::int) \<le> 5 \<and> (5::int) \<le> 127
   \<and> pack_dataBits 999 1700000000 1 5 = 4555613845485256837
   \<and> unpack_dataBits 4555613845485256837 = \<lparr>f_type = 1, f_seq = 5, f_msec = 999, f_sec = 1700000000\<rparr>"
proof -
  have p: "pack_dataBits 999 1700000000 1 5 = 4555613845485256837" by code_simp
  show ?thesis
    using unpack_pack [of 999 1700000000 1 5] p by simp
qed

section \<open>The codec inverts on whole bytes\<close>

lemma unhex_hex_digit: "0 \<le> d \<Longrightarrow> d < 16 \<Longrightarrow> unhex (hex_digit d) = Some d"
  by (simp add: unhex_def hex_digit_def Let_def)

lemma unbase64_base64_char: "0 \<le> n \<Longrightarrow> n < 64 \<Longrightarrow> unbase64 (base64_char n) = Some n"
  by (auto simp add: unbase64_def base64_char_def Let_def)

lemma base64_char_code: "0 \<le> n \<Longrightarrow> n < 64 \<Longrightarrow>
  (of_char (base64_char n) :: int) \<in> {65..90} \<union> {97..122} \<union> {48..57} \<union> {43, 47}"
  by (auto simp add: base64_char_def)

lemma base64_char_not_special: 
  assumes "0 \<le> n" "n < 64"
  shows "base64_char n \<noteq> CHR ''=''" "base64_char n \<noteq> CHR ''-''" "base64_char n \<noteq> CHR ''_''" "base64_char n \<noteq> CHR ''.''"
  using base64_char_code[OF assms] by auto


subsection \<open>Hexadecimal digits\<close>

lemma hex_digits_unfold:
  "hex_digits n = (if n < 16 then [hex_digit n] else hex_digits (n div 16) @ [hex_digit (n mod 16)])"
  by (rule hex_digits.simps)

lemma hex_value_append:
  "hex_value (xs @ ys) acc = (case hex_value xs acc of None \<Rightarrow> None | Some v \<Rightarrow> hex_value ys v)"
  by (induction xs arbitrary: acc) (auto split: option.splits)

lemma hex_value_hex_digits: "0 \<le> n \<Longrightarrow> hex_value (hex_digits n) 0 = Some n"
proof (induction n rule: hex_digits.induct)
  case (1 n)
  show ?case
  proof (cases "n < 16")
    case True
    with 1 show ?thesis
      by (subst hex_digits_unfold) (simp add: unhex_hex_digit)
  next
    case False
    with 1 have ih: "hex_value (hex_digits (n div 16)) 0 = Some (n div 16)" by simp
    have d: "unhex (hex_digit (n mod 16)) = Some (n mod 16)" by (simp add: unhex_hex_digit)
    show ?thesis using False
      by (subst hex_digits_unfold) (simp add: hex_value_append ih d)
  qed
qed

lemma hex_digits_all_hex: "0 \<le> n \<Longrightarrow> list_all is_hex_digit (hex_digits n)"
proof (induction n rule: hex_digits.induct)
  case (1 n)
  show ?case
  proof (cases "n < 16")
    case True
    with 1 show ?thesis
      by (subst hex_digits_unfold) (auto simp: is_hex_digit_def)
  next
    case False
    with 1 have ih: "list_all is_hex_digit (hex_digits (n div 16))" by simp
    have "is_hex_digit (hex_digit (n mod 16))"
      unfolding is_hex_digit_def by (intro exI[of _ "n mod 16"]) simp
    then show ?thesis using False ih
      by (subst hex_digits_unfold) simp
  qed
qed

lemma hex_digits_not_Nil: "hex_digits n \<noteq> []"
  by (subst hex_digits_unfold) simp

lemma length_hex_digits:
  "16 ^ k \<le> n \<Longrightarrow> n < 16 ^ Suc k \<Longrightarrow> length (hex_digits n) = Suc k"
proof (induction k arbitrary: n)
  case 0
  then show ?case by (subst hex_digits_unfold) simp
next
  case (Suc k)
  have "(16::int) \<le> 16 ^ Suc k" by simp
  with Suc.prems have n16: "\<not> n < 16" by linarith
  have "16 ^ k \<le> n div 16" using Suc.prems by simp
  moreover have "n div 16 < 16 ^ Suc k" using Suc.prems by simp
  ultimately have "length (hex_digits (n div 16)) = Suc k" by (rule Suc.IH)
  then show ?case using n16 by (subst hex_digits_unfold) simp
qed

lemma byte_split: "0 \<le> x \<Longrightarrow> x < 16 \<Longrightarrow> 0 \<le> y \<Longrightarrow> y < 16 \<Longrightarrow>
  (x * 16 + y) div 16 = x \<and> (x * 16 + y) mod 16 = (y::int)"
  by simp

lemma toString_hex_from_hex:
  "list_all is_hex_digit hs \<Longrightarrow> even (length hs) \<Longrightarrow> Buffer_toString_hex (Buffer_from_hex hs) = hs"
proof (induction hs rule: Buffer_from_hex.induct)
  case (1 a b rest)
  from 1(2) obtain x y where x: "0 \<le> x" "x < 16" "a = hex_digit x" and y: "0 \<le> y" "y < 16" "b = hex_digit y"
    by (auto simp: is_hex_digit_def)
  have ua: "unhex a = Some x" and ub: "unhex b = Some y" using x y by (simp_all add: unhex_hex_digit)
  have ih: "Buffer_toString_hex (Buffer_from_hex rest) = rest"
    using 1 ua ub by simp
  have "Buffer_from_hex (a # b # rest) = (x * 16 + y) # Buffer_from_hex rest"
    by (simp add: ua ub)
  moreover have "(x * 16 + y) div 16 = x" "(x * 16 + y) mod 16 = y"
    using byte_split[OF x(1,2) y(1,2)] by simp_all
  ultimately have "Buffer_toString_hex (Buffer_from_hex (a # b # rest))
      = hex_digit x # hex_digit y # Buffer_toString_hex (Buffer_from_hex rest)"
    by (simp add: Buffer_toString_hex_def)
  then show ?case by (simp only: ih x(3) y(3))
qed (simp_all add: Buffer_toString_hex_def)

lemma unhex_range: "unhex c = Some d \<Longrightarrow> 0 \<le> d \<and> d < 16"
  by (auto simp: unhex_def Let_def split: if_splits)

lemma from_hex_bytes: "list_all is_byte (Buffer_from_hex hs)"
proof (induction hs rule: Buffer_from_hex.induct)
  case (1 a b rest)
  show ?case
  proof (cases "unhex a")
    case None then show ?thesis by simp
  next
    case (Some x)
    show ?thesis
    proof (cases "unhex b")
      case None then show ?thesis using Some by simp
    next
      case (Some y)
      from unhex_range[OF \<open>unhex a = Some x\<close>] unhex_range[OF Some]
      have "is_byte (x * 16 + y)" by (simp add: is_byte_def)
      then show ?thesis using 1 \<open>unhex a = Some x\<close> Some by simp
    qed
  qed
qed simp_all

lemma length_from_hex: "list_all is_hex_digit hs \<Longrightarrow> length (Buffer_from_hex hs) = length hs div 2"
proof (induction hs rule: Buffer_from_hex.induct)
  case (1 a b rest)
  from 1(2) obtain x y where x: "0 \<le> x" "x < 16" "a = hex_digit x" and y: "0 \<le> y" "y < 16" "b = hex_digit y"
    by (auto simp: is_hex_digit_def)
  have ua: "unhex a = Some x" and ub: "unhex b = Some y" using x y by (simp_all add: unhex_hex_digit)
  show ?case using 1 ua ub by simp
qed simp_all

subsection \<open>Base64\<close>

lemma sextets_of_Nil: "sextets_of [] = []"
  by (simp add: sextets_of_def map_filter_simps)

lemma sextets_of_pad: "sextets_of (CHR ''='' # s) = []"
  by (simp add: sextets_of_def map_filter_simps)

lemma sextets_of_base64_char:
  "0 \<le> n \<Longrightarrow> n < 64 \<Longrightarrow> sextets_of (base64_char n # s) = n # sextets_of s"
  by (simp add: sextets_of_def map_filter_simps unbase64_base64_char base64_char_not_special)

lemma Buffer_from_base64_sextets: "Buffer_from_base64 s = decode_sextets (sextets_of s)"
  by (simp add: Buffer_from_base64_def sextets_of_def)

lemma sextet_bounds:
  assumes "is_byte a" "is_byte b" "is_byte c"
  shows "0 \<le> a div 4 \<and> a div 4 < 64"
    and "0 \<le> (a mod 4) * 16 + b div 16 \<and> (a mod 4) * 16 + b div 16 < 64"
    and "0 \<le> (b mod 16) * 4 + c div 64 \<and> (b mod 16) * 4 + c div 64 < 64"
    and "0 \<le> c mod 64 \<and> c mod 64 < 64"
    and "0 \<le> (a mod 4) * 16 \<and> (a mod 4) * 16 < 64"
    and "0 \<le> (b mod 16) * 4 \<and> (b mod 16) * 4 < 64"
  using assms unfolding is_byte_def by auto

lemma sextet_join:
  assumes "is_byte a" "is_byte b" "is_byte c"
  shows "(a div 4) * 4 + ((a mod 4) * 16 + b div 16) div 16 = a"
    and "(((a mod 4) * 16 + b div 16) mod 16) * 16 + ((b mod 16) * 4 + c div 64) div 4 = b"
    and "(((b mod 16) * 4 + c div 64) mod 4) * 64 + c mod 64 = c"
    and "(a div 4) * 4 + ((a mod 4) * 16) div 16 = a"
    and "(((a mod 4) * 16 + b div 16) mod 16) * 16 + ((b mod 16) * 4) div 4 = b"
  using assms unfolding is_byte_def by auto

lemma from_base64_toString_base64:
  "list_all is_byte bs \<Longrightarrow> Buffer_from_base64 (Buffer_toString_base64 bs) = bs"
  unfolding Buffer_from_base64_sextets
proof (induction bs rule: Buffer_toString_base64.induct)
  case (1 a b c rest)
  then have abc: "is_byte a" "is_byte b" "is_byte c" and rest: "list_all is_byte rest" by simp_all
  have ih: "decode_sextets (sextets_of (Buffer_toString_base64 rest)) = rest"
    using 1 rest by simp
  have "sextets_of (Buffer_toString_base64 (a # b # c # rest))
        = a div 4 # ((a mod 4) * 16 + b div 16) # ((b mod 16) * 4 + c div 64) # c mod 64
          # sextets_of (Buffer_toString_base64 rest)"
    by (simp add: sextets_of_base64_char sextet_bounds[OF abc])
  then show ?case
    by (simp only: decode_sextets.simps sextet_join[OF abc] ih append_Cons append_Nil)
next
  case (2 a b)
  then have abc: "is_byte a" "is_byte b" "is_byte 0" by (simp_all add: is_byte_def)
  have "sextets_of (Buffer_toString_base64 [a, b])
        = [a div 4, (a mod 4) * 16 + b div 16, (b mod 16) * 4]"
    by (simp add: sextets_of_base64_char sextets_of_pad sextet_bounds[OF abc])
  then show ?case
    by (simp only: decode_sextets.simps sextet_join[OF abc])
next
  case (3 a)
  then have abc: "is_byte a" "is_byte 0" "is_byte 0" by (simp_all add: is_byte_def)
  have "sextets_of (Buffer_toString_base64 [a]) = [a div 4, (a mod 4) * 16]"
    by (simp add: sextets_of_base64_char sextets_of_pad sextet_bounds[OF abc])
  then show ?case
    by (simp only: decode_sextets.simps sextet_join[OF abc])
next
  case 4
  show ?case by (simp add: sextets_of_Nil)
qed

lemma base64_text_charI: "0 \<le> n \<and> n < 64 \<Longrightarrow> base64_text_char (base64_char n)"
  unfolding base64_text_char_def by blast

lemma base64_text_char_pad: "base64_text_char (CHR ''='')"
  unfolding base64_text_char_def by simp

lemma toString_base64_chars: "list_all is_byte bs \<Longrightarrow> list_all base64_text_char (Buffer_toString_base64 bs)"
proof (induction bs rule: Buffer_toString_base64.induct)
  case (1 a b c rest)
  then have abc: "is_byte a" "is_byte b" "is_byte c" and rest: "list_all is_byte rest" by simp_all
  have "list_all base64_text_char (Buffer_toString_base64 rest)" using 1 rest by simp
  then show ?case using sextet_bounds(1-4)[OF abc, THEN base64_text_charI]
    by simp
next
  case (2 a b)
  then have abc: "is_byte a" "is_byte b" "is_byte 0" by (simp_all add: is_byte_def)
  show ?case using sextet_bounds(1,2,6)[OF abc, THEN base64_text_charI] base64_text_char_pad
    by simp
next
  case (3 a)
  then have abc: "is_byte a" "is_byte 0" "is_byte 0" by (simp_all add: is_byte_def)
  show ?case using sextet_bounds(1,5)[OF abc, THEN base64_text_charI] base64_text_char_pad
    by simp
next
  case 4
  show ?case by simp
qed

lemma length_toString_base64: "length (Buffer_toString_base64 bs) = 4 * ((length bs + 2) div 3)"
proof (induction bs rule: Buffer_toString_base64.induct)
  case (1 a b c rest)
  have "(length (a # b # c # rest) + 2) div 3 = Suc ((length rest + 2) div 3)" by simp
  with 1 show ?case by simp
qed simp_all

subsection \<open>The substitutions\<close>

lemma base64_text_char_not_url:
  assumes "base64_text_char c"
  shows "c \<noteq> CHR ''-''" "c \<noteq> CHR ''_''" "c \<noteq> CHR ''.''"
proof -
  from assms consider "c = CHR ''=''" | n where "0 \<le> n" "n < 64" "c = base64_char n"
    unfolding base64_text_char_def by blast
  then have "c \<noteq> CHR ''-'' \<and> c \<noteq> CHR ''_'' \<and> c \<noteq> CHR ''.''"
  proof cases
    case 1
    then show ?thesis by simp
  next
    case 2
    then show ?thesis using base64_char_not_special[of n] by simp
  qed
  then show "c \<noteq> CHR ''-''" "c \<noteq> CHR ''_''" "c \<noteq> CHR ''.''" by simp_all
qed

lemma url_there_and_back_id:
  assumes "c \<noteq> CHR ''-''" "c \<noteq> CHR ''_''" "c \<noteq> CHR ''.''"
  shows "url_there_and_back c = c"
proof (cases "c = CHR ''+''")
  case True then show ?thesis by (simp add: url_there_and_back_def)
next
  case plus: False
  show ?thesis
  proof (cases "c = CHR ''/''")
    case True then show ?thesis by (simp add: url_there_and_back_def)
  next
    case slash: False
    show ?thesis
    proof (cases "c = CHR ''=''")
      case True then show ?thesis by (simp add: url_there_and_back_def)
    next
      case False
      with plus slash assms show ?thesis by (simp add: url_there_and_back_def)
    qed
  qed
qed

lemma replace_all_six:
  "replace_all (CHR ''.'') (CHR ''='')
           (replace_all (CHR ''_'') (CHR ''/'')
             (replace_all (CHR ''-'') (CHR ''+'')
               (replace_all (CHR ''='') (CHR ''.'')
                 (replace_all (CHR ''/'') (CHR ''_'')
                   (replace_all (CHR ''+'') (CHR ''-'') t))))) = map url_there_and_back t"
  unfolding replace_all_def map_map
  by (rule map_cong[OF refl]) (simp only: comp_def url_there_and_back_def Let_def)

lemma url_safe_roundtrip:
  assumes "list_all base64_text_char t"
  shows "replace_all (CHR ''.'') (CHR ''='')
           (replace_all (CHR ''_'') (CHR ''/'')
             (replace_all (CHR ''-'') (CHR ''+'')
               (replace_all (CHR ''='') (CHR ''.'')
                 (replace_all (CHR ''/'') (CHR ''_'')
                   (replace_all (CHR ''+'') (CHR ''-'') t))))) = t"
proof -
  have "url_there_and_back c = c" if "c \<in> set t" for c
  proof -
    from that assms have "base64_text_char c" by (simp add: list_all_iff)
    then show ?thesis by (intro url_there_and_back_id base64_text_char_not_url)
  qed
  then show ?thesis unfolding replace_all_six by (intro map_idI)
qed

lemma length_replace_all: "length (replace_all c d s) = length s"
  by (simp add: replace_all_def)

subsection \<open>The codec on integers with an even number of digits\<close>

lemma decode_encode_even:
  assumes "0 \<le> x" and "even (length (BigInt_toString16 x))"
  shows "decodeBase64UrlSafe (encodeBase64UrlSafe x) = Inr x"
proof -
  let ?hs = "hex_digits x"
  have hs: "BigInt_toString16 x = ?hs" using assms(1) by (simp add: BigInt_toString16_def)
  have bytes: "list_all is_byte (Buffer_from_hex ?hs)" by (rule from_hex_bytes)
  have "decodeBase64UrlSafe (encodeBase64UrlSafe x)
        = BigInt_0x (Buffer_toString_hex (Buffer_from_base64 (Buffer_toString_base64 (Buffer_from_hex ?hs))))"
    unfolding decodeBase64UrlSafe_def encodeBase64UrlSafe_def hs
    by (simp only: url_safe_roundtrip[OF toString_base64_chars[OF bytes]])
  also have "\<dots> = BigInt_0x (Buffer_toString_hex (Buffer_from_hex ?hs))"
    by (simp only: from_base64_toString_base64[OF bytes])
  also have "\<dots> = BigInt_0x ?hs"
    using assms by (simp add: toString_hex_from_hex hex_digits_all_hex hs)
  also have "\<dots> = Inr x"
    using assms(1) by (simp add: BigInt_0x_def hex_digits_not_Nil hex_value_hex_digits)
  finally show ?thesis .
qed

section \<open>Width of the payload and of the mixed identifier\<close>

lemma div_bounds:
  assumes "0 < (k::int)" "a * k \<le> x" "x < b * k"
  shows "a \<le> x div k" "x div k < b"
proof -
  have x: "x = (x div k) * k + x mod k" by (rule div_mult_mod_eq[symmetric])
  have r: "0 \<le> x mod k" "x mod k < k" using assms(1) by simp_all
  show "a \<le> x div k"
  proof (rule ccontr)
    assume "\<not> a \<le> x div k"
    then have "x div k + 1 \<le> a" by simp
    then have "(x div k + 1) * k \<le> a * k" using assms(1) by (intro mult_right_mono) simp_all
    then have "(x div k) * k + k \<le> a * k" by (simp add: algebra_simps)
    with x r assms show False by linarith
  qed
  show "x div k < b"
  proof (rule ccontr)
    assume "\<not> x div k < b"
    then have "b \<le> x div k" by simp
    then have "b * k \<le> (x div k) * k" using assms(1) by (intro mult_right_mono) simp_all
    with x r assms show False by linarith
  qed
qed

lemma shr_bounds:
  assumes "shr x n = d"
  shows "d * 2 ^ n \<le> x" "x < (d + 1) * 2 ^ n"
proof -
  have d: "x div 2 ^ n = d" using assms by (simp add: shr_def drop_bit_eq_div)
  have x: "x = (x div 2 ^ n) * 2 ^ n + x mod 2 ^ n" by (rule div_mult_mod_eq[symmetric])
  have r: "0 \<le> x mod 2 ^ n" "x mod 2 ^ n < (2::int) ^ n" by simp_all
  have e: "(d + 1) * 2 ^ n = d * 2 ^ n + (2::int) ^ n" by (simp add: algebra_simps)
  show "d * 2 ^ n \<le> x" using x r unfolding d by linarith
  show "x < (d + 1) * 2 ^ n" using x r unfolding d e by linarith
qed

lemma shr_pack_dataBits:
  assumes "0 \<le> ms" "ms \<le> 1023" "0 \<le> s" "s \<le> 2 ^ 34 - 1" "0 \<le> ty" "ty \<le> 1023"
    "0 \<le> sq" "sq \<le> 127"
  shows "shr (pack_dataBits ms s ty sq) 61 = 1"
proof -
  have a: "ms AND mask 10 = ms" "s AND mask 34 = s" "ty AND mask 10 = ty" "sq AND mask 7 = sq"
    using assms by (simp_all add: and_mask_id)
  define d1 where "d1 = shl 1 10 OR (ms AND mask 10)"
  define d2 where "d2 = shl d1 34 OR (s AND mask 34)"
  define d3 where "d3 = shl d2 10 OR (ty AND mask 10)"
  define d4 where "d4 = shl d3 7 OR (sq AND mask 7)"
  have p: "pack_dataBits ms s ty sq = d4"
    unfolding pack_dataBits_def Let_def d4_def d3_def d2_def d1_def a ..
  have "shr d4 61 = shr (shr (shr (shr d4 7) 10) 34) 10"
    by (simp only: shr_shr) simp
  also have "\<dots> = 1"
    unfolding d4_def d3_def d2_def d1_def by (simp only: shr_shl_or)
  finally show ?thesis unfolding p .
qed

lemma pack_dataBits_bounds:
  assumes "0 \<le> ms" "ms \<le> 1023" "0 \<le> s" "s \<le> 2 ^ 34 - 1" "0 \<le> ty" "ty \<le> 1023"
    "0 \<le> sq" "sq \<le> 127"
  shows "2 ^ 61 \<le> pack_dataBits ms s ty sq" "pack_dataBits ms s ty sq < 2 ^ 62"
proof -
  note b = shr_bounds[OF shr_pack_dataBits[OF assms]]
  show "2 ^ 61 \<le> pack_dataBits ms s ty sq" using b(1) by simp
  have "(1 + 1) * 2 ^ 61 = (2::int) ^ 62" by simp
  then show "pack_dataBits ms s ty sq < 2 ^ 62" using b(2) by (simp only:)
qed

lemma shr_mixbit: "shr (mixbit p s) 61 = shr p 51"
proof -
  let ?m = "mixbit_loop p s 1 (shr p 51)"
  let ?u = "shl ?m 1 OR (p AND 1)"
  have e: "(62::nat) - 11 = 51" by simp
  have u: "mixbit p s = ?u"
    by (simp only: mixbit_def Let_def DATA_BIT_def DATA_HEAD_BIT_def e)
  have u1: "shr ?u 1 = ?m" unfolding masks by (simp only: shr_shl_or)
  have "shr ?u 61 = shr (shr ?u 1) (6 * (11 - 1))" by (simp only: shr_shr) simp
  also have "\<dots> = shr p 51" unfolding u1 by (rule shr_mixbit_loop) simp
  finally show ?thesis unfolding u .
qed

lemma mixbit_bounds:
  assumes "2 ^ 61 \<le> p" "p < 2 ^ 62"
  shows "2 ^ 71 \<le> mixbit p s" "mixbit p s < 2 ^ 72"
proof -
  have k: "0 < (2::int) ^ 51" by simp
  have lo: "(2::int) ^ 10 * 2 ^ 51 \<le> p" and hi: "p < 2 ^ 11 * 2 ^ 51"
    using assms by simp_all
  have "2 ^ 10 \<le> p div 2 ^ 51" "p div 2 ^ 51 < 2 ^ 11"
    by (rule div_bounds(1)[OF k lo hi], rule div_bounds(2)[OF k lo hi])
  then have d: "2 ^ 10 \<le> shr p 51" "shr p 51 + 1 \<le> 2 ^ 11"
    by (simp_all add: shr_def drop_bit_eq_div)
  note b = shr_bounds[OF shr_mixbit[of p s]]
  have "(2::int) ^ 10 * 2 ^ 61 \<le> shr p 51 * 2 ^ 61"
    using d(1) by (intro mult_right_mono) simp_all
  with b(1) have "(2::int) ^ 10 * 2 ^ 61 \<le> mixbit p s" by linarith
  then show "2 ^ 71 \<le> mixbit p s" by simp
  have "(shr p 51 + 1) * 2 ^ 61 \<le> (2::int) ^ 11 * 2 ^ 61"
    using d(2) by (intro mult_right_mono) simp_all
  with b(2) have "mixbit p s < (2::int) ^ 11 * 2 ^ 61" by linarith
  then show "mixbit p s < 2 ^ 72" by simp
qed

lemma toString16_72bit:
  assumes "2 ^ 71 \<le> m" "m < 2 ^ 72"
  shows "length (BigInt_toString16 m) = 18"
proof -
  have "(16::int) ^ 17 \<le> m" "m < 16 ^ Suc 17" using assms by simp_all
  then have "length (hex_digits m) = Suc 17" by (rule length_hex_digits)
  moreover have "BigInt_toString16 m = hex_digits m" using assms by (simp add: BigInt_toString16_def)
  ultimately show ?thesis by simp
qed

lemma length_encode:
  assumes "0 \<le> m"
  shows "length (encodeBase64UrlSafe m) = 4 * ((length (BigInt_toString16 m) div 2 + 2) div 3)"
proof -
  have hs: "BigInt_toString16 m = hex_digits m" using assms by (simp add: BigInt_toString16_def)
  show ?thesis
    unfolding encodeBase64UrlSafe_def hs
    by (simp add: length_replace_all length_toString_base64 length_from_hex hex_digits_all_hex assms)
qed

section \<open>What generate and parse compute\<close>

lemma seq_up:
  "up st \<Longrightarrow> seq st ty sh = (Inr (spec_next (kv st (seqKey ty sh))), after_seq st (seqKey ty sh))"
  by (simp add: seq_def redis_eval_def seq_script_def Let_def spec_next_def after_seq_def MAX_SEQ_def
      split: option.splits)

lemma seq_down:
  "\<not> up st \<Longrightarrow> seq st ty sh = (Inl StoreError, st\<lparr>sent := sent st @ [Eval (seqKey ty sh)]\<rparr>)"
  by (simp add: seq_def redis_eval_def)

lemma generate_up:
  assumes "ty \<le> 1023" "up st"
  shows "generate hint now st ty =
    (Inr \<lparr>g_uuid = encodeBase64UrlSafe (mixbit (pack_dataBits (now mod 1000) (now div 1000) ty
               (spec_next (kv st (seqKey ty (js_rem hint 1024))))) (js_rem hint 1024)),
          g_shard = js_rem hint 1024, g_sec = now div 1000, g_msec = now mod 1000,
          g_seq = spec_next (kv st (seqKey ty (js_rem hint 1024)))\<rparr>,
     after_seq st (seqKey ty (js_rem hint 1024)))"
  using assms by (simp add: generate_def MAX_TYPE_def SHARD_SLOT_def seq_up stamp_def Let_def)

lemma generate_down:
  assumes "ty \<le> 1023" "\<not> up st"
  shows "generate hint now st ty =
    (Inl StoreError, st\<lparr>sent := sent st @ [Eval (seqKey ty (js_rem hint 1024))]\<rparr>)"
  using assms by (simp add: generate_def MAX_TYPE_def SHARD_SLOT_def seq_down Let_def)

lemma generate_range:
  assumes "ty > 1023"
  shows "generate hint now st ty = (Inl RangeError, st)"
  using assms by (simp add: generate_def MAX_TYPE_def)

lemma spec_next_range:
  "seq_in_range st key \<Longrightarrow> 0 \<le> spec_next (kv st key) \<and> spec_next (kv st key) \<le> 127"
  by (auto simp: seq_in_range_def spec_next_def split: option.splits)

lemma js_rem_nonneg: "0 \<le> a \<Longrightarrow> js_rem a 1024 = a mod 1024"
  by (cases "a = 0") (simp_all add: js_rem_def)

lemma js_rem_neg: "a < 0 \<Longrightarrow> js_rem a 1024 = - ((- a) mod 1024)"
  by (simp add: js_rem_def)

lemma parse_String:
  "parse (StringArg s) = (case decodeBase64UrlSafe s of Inl e \<Rightarrow> Inl e
      | Inr source \<Rightarrow> Inr \<lparr>p_type = f_type (unpack_dataBits (u_data (unmixbit source))),
            p_shard = u_shard (unmixbit source),
            p_seq = f_seq (unpack_dataBits (u_data (unmixbit source))),
            p_msec = f_msec (unpack_dataBits (u_data (unmixbit source))),
            p_sec = f_sec (unpack_dataBits (u_data (unmixbit source)))\<rparr>)"
  by (simp add: parse_def Let_def split: sum.splits)

lemma token_roundtrip:
  assumes "0 \<le> ms" "ms \<le> 1023" "0 \<le> s" "s \<le> 2 ^ 34 - 1" "0 \<le> ty" "ty \<le> 1023"
    "0 \<le> sq" "sq \<le> 127"
  shows "length (BigInt_toString16 (mixbit (pack_dataBits ms s ty sq) sh)) = 18"
    and "length (encodeBase64UrlSafe (mixbit (pack_dataBits ms s ty sq) sh)) = 12"
    and "decodeBase64UrlSafe (encodeBase64UrlSafe (mixbit (pack_dataBits ms s ty sq) sh))
         = Inr (mixbit (pack_dataBits ms s ty sq) sh)"
proof -
  let ?p = "pack_dataBits ms s ty sq"
  let ?m = "mixbit ?p sh"
  note pb = pack_dataBits_bounds[OF assms]
  note mb = mixbit_bounds[OF pb, of sh]
  have m0: "0 \<le> ?m" using mb(1) by (smt (verit) zero_le_power)
  show l: "length (BigInt_toString16 ?m) = 18" using mb by (rule toString16_72bit)
  show "length (encodeBase64UrlSafe ?m) = 12"
    unfolding length_encode[OF m0] l by simp
  show "decodeBase64UrlSafe (encodeBase64UrlSafe ?m) = Inr ?m"
    using m0 by (rule decode_encode_even) (simp add: l)
qed

lemma parse_token:
  assumes "0 \<le> ms" "ms \<le> 1023" "0 \<le> s" "s \<le> 2 ^ 34 - 1" "0 \<le> ty" "ty \<le> 1023"
    "0 \<le> sq" "sq \<le> 127" "0 \<le> sh" "sh \<le> 1023"
  shows "parse (StringArg (encodeBase64UrlSafe (mixbit (pack_dataBits ms s ty sq) sh)))
         = Inr \<lparr>p_type = ty, p_shard = sh, p_seq = sq, p_msec = ms, p_sec = s\<rparr>"
  unfolding parse_String token_roundtrip(3)[OF assms(1-8)]
  by (simp add: unmixbit_mixbit_any[OF assms(9,10)] unpack_pack_fields[OF assms(1-8)])

lemma stamp_range:
  assumes "0 \<le> (now::int)" "now div 1000 < 2 ^ 34"
  shows "0 \<le> now mod 1000" "now mod 1000 \<le> 1023" "0 \<le> now div 1000" "now div 1000 \<le> 2 ^ 34 - 1"
  using assms by simp_all

section \<open>End-to-end properties of generate and parse\<close>


text \<open>
  Claim C1. For every type from 0 to 1023, every value from 0 to 1023 returned by the shard
  hint, every clock reading whose seconds fit 34 bits and every stored counter that is
  absent or from 0 to 127 (the store being reachable), \<open>generate\<close> returns a result, and
  \<open>parse\<close> applied to its uuid string returns the type that was passed and the shard,
  sec, msec and seq of that same result.
\<close>

theorem parse_generate:
  assumes "0 \<le> ty" and "ty \<le> 1023" and "0 \<le> hint" and "hint \<le> 1023"
    and "0 \<le> now" and "now div 1000 < 2 ^ 34"
    and "up st" and "seq_in_range st (seqKey ty hint)"
  shows "\<exists>g st'. generate hint now st ty = (Inr g, st')
           \<and> parse (StringArg (g_uuid g))
               = Inr \<lparr>p_type = ty, p_shard = g_shard g, p_seq = g_seq g,
                      p_msec = g_msec g, p_sec = g_sec g\<rparr>"
proof -
  have sh: "js_rem hint 1024 = hint" using assms(3,4) by (simp add: js_rem_nonneg)
  let ?sq = "spec_next (kv st (seqKey ty hint))"
  have sq: "0 \<le> ?sq" "?sq \<le> 127" using spec_next_range[OF assms(8)] by simp_all
  note t = stamp_range[OF assms(5,6)]
  have "parse (StringArg (encodeBase64UrlSafe
           (mixbit (pack_dataBits (now mod 1000) (now div 1000) ty ?sq) hint)))
        = Inr \<lparr>p_type = ty, p_shard = hint, p_seq = ?sq, p_msec = now mod 1000, p_sec = now div 1000\<rparr>"
    by (rule parse_token[OF t assms(1,2) sq assms(3,4)])
  then show ?thesis
    unfolding generate_up[OF assms(2,7)] sh by simp
qed

theorem parse_generate_witness:
  "(0::int) \<le> 1 \<and> (1::int) \<le> 1023 \<and> (0::int) \<le> 5 \<and> (5::int) \<le> 1023
   \<and> (0::int) \<le> 1700000000999 \<and> (1700000000999::int) div 1000 < 2 ^ 34
   \<and> up \<lparr>kv = Map.empty, up = True, sent = []\<rparr>
   \<and> seq_in_range \<lparr>kv = Map.empty, up = True, sent = []\<rparr> (seqKey 1 5)
   \<and> (\<exists>g st'. generate 5 1700000000999 \<lparr>kv = Map.empty, up = True, sent = []\<rparr> 1 = (Inr g, st')
           \<and> parse (StringArg (g_uuid g))
               = Inr \<lparr>p_type = 1, p_shard = g_shard g, p_seq = g_seq g,
                      p_msec = g_msec g, p_sec = g_sec g\<rparr>)
   \<and> fst (generate 5 1700000000999 \<lparr>kv = Map.empty, up = True, sent = []\<rparr> 1)
       = Inr \<lparr>g_uuid = ''_OMUo9hAACIC'', g_shard = 5, g_sec = 1700000000, g_msec = 999, g_seq = 0\<rparr>
   \<and> parse (StringArg ''_OMUo9hAACIC'')
       = Inr \<lparr>p_type = 1, p_shard = 5, p_seq = 0, p_msec = 999, p_sec = 1700000000\<rparr>"
proof -
  have h: "seq_in_range \<lparr>kv = Map.empty, up = True, sent = []\<rparr> (seqKey 1 5)"
    by (simp add: seq_in_range_def)
  have g: "fst (generate 5 1700000000999 \<lparr>kv = Map.empty, up = True, sent = []\<rparr> 1)
       = Inr \<lparr>g_uuid = ''_OMUo9hAACIC'', g_shard = 5, g_sec = 1700000000, g_msec = 999, g_seq = 0\<rparr>"
    by code_simp
  have p: "parse (StringArg ''_OMUo9hAACIC'')
       = Inr \<lparr>p_type = 1, p_shard = 5, p_seq = 0, p_msec = 999, p_sec = 1700000000\<rparr>"
    by code_simp
  show ?thesis
    using parse_generate [of 1 5 1700000000999 "\<lparr>kv = Map.empty, up = True, sent = []\<rparr>"] h g p
    by simp
qed








text \<open>
  The other bounds are needed as well: a clock before the epoch and a stored counter
  below -1 give a negative payload and an empty uuid, and seconds of 2^45 give a payload of
  63 bits and a rendering of 19 digits.
\<close>

lemma generate_before_epoch:
  "fst (generate 5 (- 1) \<lparr>kv = Map.empty, up = True, sent = []\<rparr> 1)
       = Inr \<lparr>g_uuid = [], g_shard = 5, g_sec = - 1, g_msec = 999, g_seq = 0\<rparr>
   \<and> pack_dataBits 999 (- 1) 1 0 = - 130944"
  by code_simp

lemma generate_counter_below:
  "fst (generate 5 1700000000999 \<lparr>kv = [''uuid:1:5'' \<mapsto> - 2], up = True, sent = []\<rparr> 1)
       = Inr \<lparr>g_uuid = [], g_shard = 5, g_sec = 1700000000, g_msec = 999, g_seq = - 1\<rparr>"
  by code_simp

lemma generate_clock_beyond:
  "pack_dataBits 0 (2 ^ 45) 1 0 = 6917529027641081984
   \<and> \<not> pack_dataBits 0 (2 ^ 45) 1 0 < 2 ^ 62
   \<and> length (BigInt_toString16 (mixbit (pack_dataBits 0 (2 ^ 45) 1 0) 5)) = 19"
  by code_simp

text \<open>
  Claim C6. \<open>generate\<close> fails with the range error exactly when the type is above 1023,
  and then it returns before the shard hint is asked and before anything is sent to the
  store, which it leaves as it was: \<open>generate(1024)\<close> fails so, \<open>generate(1023)\<close> does not.
\<close>

theorem generate_range_violation:
  "(fst (generate hint now st ty) = Inl RangeError \<longleftrightarrow> ty > 1023)
   \<and> (ty > 1023 \<longrightarrow> snd (generate hint now st ty) = st)
   \<and> generate hint now st 1024 = (Inl RangeError, st)
   \<and> fst (generate hint now st 1023) \<noteq> Inl RangeError"
proof -
  have a: "fst (generate hint now st t) \<noteq> Inl RangeError" if "t \<le> 1023" for t
  proof (cases "up st")
    case True
    show ?thesis unfolding generate_up[OF that True] by simp
  next
    case False
    show ?thesis unfolding generate_down[OF that False] by simp
  qed
  have b: "generate hint now st t = (Inl RangeError, st)" if "t > 1023" for t
    using that by (rule generate_range)
  show ?thesis
  proof (cases "ty > 1023")
    case True
    then show ?thesis using b[of ty] b[of 1024] a[of 1023] by simp
  next
    case False
    then have "ty \<le> 1023" by simp
    then show ?thesis using a[of ty] b[of 1024] a[of 1023] by simp
  qed
qed

theorem generate_range_violation_witness:
  "(1024::int) > 1023
   \<and> generate 5 1700000000999 \<lparr>kv = Map.empty, up = True, sent = []\<rparr> 1024
       = (Inl RangeError, \<lparr>kv = Map.empty, up = True, sent = []\<rparr>)
   \<and> sent (snd (generate 5 1700000000999 \<lparr>kv = Map.empty, up = True, sent = []\<rparr> 1024)) = []
   \<and> fst (generate 5 1700000000999 \<lparr>kv = Map.empty, up = True, sent = []\<rparr> 1023) \<noteq> Inl RangeError"
  using generate_range_violation [of 5 1700000000999 "\<lparr>kv = Map.empty, up = True, sent = []\<rparr>" 1024]
  by simp

section \<open>The sequence counter\<close>

lemma spec_next_cycle:
  "spec_next (if k = 0 then None else Some (int ((k - 1) mod 128))) = int (k mod 128)"
proof (cases k)
  case 0
  then show ?thesis by (simp add: spec_next_def)
next
  case (Suc j)
  define r where "r = j mod 128"
  have r: "r < 128" by (simp add: r_def)
  have "Suc j mod 128 = (if Suc r = 128 then 0 else Suc r)"
    unfolding r_def by (rule mod_Suc)
  moreover have "spec_next (Some (int r)) = (if Suc r = 128 then 0 else int (Suc r))"
    using r by (simp add: spec_next_def)
  ultimately show ?thesis unfolding Suc r_def by simp
qed

lemma after_seq_simps:
  "up (after_seq st key) = up st"
  "kv (after_seq st key) key = Some (spec_next (kv st key))"
  by (simp_all add: after_seq_def)

lemma seq_calls_cycle:
  assumes "up st"
    and "kv st (seqKey ty sh) = (if k = 0 then None else Some (int ((k - 1) mod 128)))"
  shows "fst (seq_calls n st ty sh) = map (\<lambda>i. Inr (int ((k + i) mod 128))) [0..<n]
       \<and> kv (snd (seq_calls n st ty sh)) (seqKey ty sh)
         = (if k + n = 0 then None else Some (int ((k + n - 1) mod 128)))"
  using assms
proof (induction n arbitrary: st k)
  case 0
  then show ?case by simp
next
  case (Suc n)
  let ?key = "seqKey ty sh"
  let ?st' = "after_seq st ?key"
  have nx: "spec_next (kv st ?key) = int (k mod 128)"
    unfolding Suc.prems(2) by (rule spec_next_cycle)
  have s: "seq st ty sh = (Inr (int (k mod 128)), ?st')"
    using seq_up[OF Suc.prems(1), of ty sh] nx by simp
  have up': "up ?st'" using Suc.prems(1) by (simp add: after_seq_simps)
  have kv': "kv ?st' ?key = (if Suc k = 0 then None else Some (int ((Suc k - 1) mod 128)))"
    by (simp add: after_seq_simps nx)
  note ih = Suc.IH[OF up' kv']
  have m: "map (\<lambda>i. Inr (int ((k + i) mod 128)) :: error + int) [0..<Suc n]
        = Inr (int (k mod 128)) # map (\<lambda>i. Inr (int ((Suc k + i) mod 128))) [0..<n]"
  proof -
    have u: "[0..<Suc n] = 0 # map Suc [0..<n]"
      unfolding map_Suc_upt by (rule upt_conv_Cons) simp
    show ?thesis unfolding u by (simp add: comp_def)
  qed
  show ?case
    unfolding m using ih by (simp add: s case_prod_unfold)
qed

lemma resetSeq_up:
  "up st \<Longrightarrow> resetSeq st ty sh
     = (Inr (), st\<lparr>kv := (kv st)(seqKey ty sh := None), sent := sent st @ [Del (seqKey ty sh)]\<rparr>)"
  by (simp add: resetSeq_def redis_del_def)

text \<open>
  Claim C4. On a reachable store the script behind \<open>seq\<close> maps an absent value to 0, a
  stored value of 127 or more to 0 and any other value to its successor, and writes the
  result back under the key of the type and the shard. From the state \<open>resetSeq\<close> leaves,
  in which the key is deleted, \<open>n\<close> consecutive calls for the key return 0, 1, ..., 127, 0,
  1, ... (call \<open>i\<close> returns \<open>i mod 128\<close>), and the value stored after them is the last
  one returned: issued and stored values stay from 0 to 127.
\<close>

theorem seq_counter:
  assumes "up st"
  shows "seq st ty sh = (Inr (spec_next (kv st (seqKey ty sh))), after_seq st (seqKey ty sh))
    \<and> kv (after_seq st (seqKey ty sh)) (seqKey ty sh) = Some (spec_next (kv st (seqKey ty sh)))
    \<and> kv (snd (resetSeq st ty sh)) (seqKey ty sh) = None
    \<and> fst (seq_calls n (snd (resetSeq st ty sh)) ty sh) = map (\<lambda>i. Inr (int (i mod 128))) [0..<n]
    \<and> kv (snd (seq_calls n (snd (resetSeq st ty sh)) ty sh)) (seqKey ty sh)
       = (if n = 0 then None else Some (int ((n - 1) mod 128)))"
proof -
  let ?st = "snd (resetSeq st ty sh)"
  have u: "up ?st" and k: "kv ?st (seqKey ty sh) = (if (0::nat) = 0 then None else Some (int ((0 - 1) mod 128)))"
    using assms by (simp_all add: resetSeq_up)
  from seq_calls_cycle[OF u k, of n] k
  show ?thesis by (simp add: seq_up[OF assms] after_seq_simps)
qed

theorem seq_counter_witness:
  "up \<lparr>kv = [''uuid:1:0'' \<mapsto> 77], up = True, sent = []\<rparr>
   \<and> fst (seq \<lparr>kv = [''uuid:1:0'' \<mapsto> 77], up = True, sent = []\<rparr> 1 0) = Inr 78
   \<and> fst (seq \<lparr>kv = [''uuid:1:0'' \<mapsto> 127], up = True, sent = []\<rparr> 1 0) = Inr 0
   \<and> fst (seq_calls 3 (snd (resetSeq \<lparr>kv = [''uuid:1:0'' \<mapsto> 77], up = True, sent = []\<rparr> 1 0)) 1 0)
       = [Inr 0, Inr 1, Inr 2]
   \<and> kv (snd (seq_calls 3 (snd (resetSeq \<lparr>kv = [''uuid:1:0'' \<mapsto> 77], up = True, sent = []\<rparr> 1 0)) 1 0))
        (seqKey 1 0) = Some 2"
proof -
  have a: "fst (seq \<lparr>kv = [''uuid:1:0'' \<mapsto> 77], up = True, sent = []\<rparr> 1 0) = Inr 78" by code_simp
  have b: "fst (seq \<lparr>kv = [''uuid:1:0'' \<mapsto> 127], up = True, sent = []\<rparr> 1 0) = Inr 0" by code_simp
  have e: "[0..<3] = [0, Suc 0, Suc (Suc 0)]" by (simp add: upt_conv_Cons)
  show ?thesis
    using seq_counter [of "\<lparr>kv = [''uuid:1:0'' \<mapsto> 77], up = True, sent = []\<rparr>" 1 0 3] a b
    by (simp add: e)
qed

section \<open>The codec on arbitrary integers and arbitrary strings\<close>

lemma toString_hex_from_hex_take:
  "list_all is_hex_digit hs \<Longrightarrow>
     Buffer_toString_hex (Buffer_from_hex hs) = take (2 * (length hs div 2)) hs"
proof (induction hs rule: Buffer_from_hex.induct)
  case (1 a b rest)
  from 1(2) obtain x y where x: "0 \<le> x" "x < 16" "a = hex_digit x" and y: "0 \<le> y" "y < 16" "b = hex_digit y"
    by (auto simp: is_hex_digit_def)
  have ua: "unhex a = Some x" and ub: "unhex b = Some y" using x y by (simp_all add: unhex_hex_digit)
  have ih: "Buffer_toString_hex (Buffer_from_hex rest) = take (2 * (length rest div 2)) rest"
    using 1 ua ub by simp
  have "Buffer_from_hex (a # b # rest) = (x * 16 + y) # Buffer_from_hex rest"
    by (simp add: ua ub)
  moreover have "(x * 16 + y) div 16 = x" "(x * 16 + y) mod 16 = y"
    using byte_split[OF x(1,2) y(1,2)] by simp_all
  ultimately have "Buffer_toString_hex (Buffer_from_hex (a # b # rest))
      = hex_digit x # hex_digit y # Buffer_toString_hex (Buffer_from_hex rest)"
    by (simp add: Buffer_toString_hex_def)
  then show ?case by (simp add: ih x(3) y(3))
qed (simp_all add: Buffer_toString_hex_def)

lemma decode_encode_take:
  assumes "0 \<le> x"
  shows "decodeBase64UrlSafe (encodeBase64UrlSafe x)
         = BigInt_0x (take (2 * (length (hex_digits x) div 2)) (hex_digits x))"
proof -
  let ?hs = "hex_digits x"
  have hs: "BigInt_toString16 x = ?hs" using assms(1) by (simp add: BigInt_toString16_def)
  have bytes: "list_all is_byte (Buffer_from_hex ?hs)" by (rule from_hex_bytes)
  have "decodeBase64UrlSafe (encodeBase64UrlSafe x)
        = BigInt_0x (Buffer_toString_hex (Buffer_from_base64 (Buffer_toString_base64 (Buffer_from_hex ?hs))))"
    unfolding decodeBase64UrlSafe_def encodeBase64UrlSafe_def hs
    by (simp only: url_safe_roundtrip[OF toString_base64_chars[OF bytes]])
  also have "\<dots> = BigInt_0x (Buffer_toString_hex (Buffer_from_hex ?hs))"
    by (simp only: from_base64_toString_base64[OF bytes])
  finally show ?thesis
    using assms by (simp add: toString_hex_from_hex_take hex_digits_all_hex)
qed

lemma decode_encode_odd:
  assumes "0 \<le> x" and "odd (length (hex_digits x))"
  shows "decodeBase64UrlSafe (encodeBase64UrlSafe x) \<noteq> Inr x"
proof (cases "x < 16")
  case True
  then have "hex_digits x = [hex_digit x]" by (subst hex_digits_unfold) simp
  then show ?thesis unfolding decode_encode_take[OF assms(1)] by (simp add: BigInt_0x_def)
next
  case False
  let ?A = "hex_digits (x div 16)"
  have hs: "hex_digits x = ?A @ [hex_digit (x mod 16)]"
    using False by (subst hex_digits_unfold) simp
  have "even (length ?A)" using assms(2) unfolding hs by simp
  then have "2 * (length (hex_digits x) div 2) = length ?A" unfolding hs by auto
  then have "take (2 * (length (hex_digits x) div 2)) (hex_digits x) = ?A"
    unfolding hs by simp
  moreover have "BigInt_0x ?A = Inr (x div 16)"
    using assms(1) by (simp add: BigInt_0x_def hex_digits_not_Nil hex_value_hex_digits)
  moreover have "x div 16 \<noteq> x" using False by linarith
  ultimately show ?thesis unfolding decode_encode_take[OF assms(1)] by simp
qed

text \<open>
  Claim C5, as the code has it. The codec pads nothing: \<open>Buffer.from(hex, 'hex')\<close> drops the
  last digit of a rendering with an odd number of digits. So for a non-negative integer
  \<open>x\<close>, decoding the encoding of \<open>x\<close> gives \<open>x\<close> back exactly when the hexadecimal
  rendering of \<open>x\<close> has an even number of digits. That covers integers whose bit length is
  not a multiple of 8 (18 = 0x12 has five bits) and every 72-bit mixed identifier, and it
  excludes 0 to 15, 256 to 4095 and so on.
\<close>

theorem codec_roundtrip_even_digits:
  assumes "0 \<le> x"
  shows "decodeBase64UrlSafe (encodeBase64UrlSafe x) = Inr x
         \<longleftrightarrow> even (length (BigInt_toString16 x))"
proof
  assume "decodeBase64UrlSafe (encodeBase64UrlSafe x) = Inr x"
  then have "\<not> odd (length (hex_digits x))" using decode_encode_odd[OF assms] by blast
  then show "even (length (BigInt_toString16 x))" using assms by (simp add: BigInt_toString16_def)
next
  assume "even (length (BigInt_toString16 x))"
  with assms show "decodeBase64UrlSafe (encodeBase64UrlSafe x) = Inr x" by (rule decode_encode_even)
qed

theorem codec_roundtrip_even_digits_witness:
  "(0::int) \<le> 18 \<and> even (length (BigInt_toString16 18))
   \<and> decodeBase64UrlSafe (encodeBase64UrlSafe 18) = Inr 18
   \<and> encodeBase64UrlSafe 18 = ''Eg..''"
proof -
  have e: "even (length (BigInt_toString16 18))" by code_simp
  have t: "encodeBase64UrlSafe 18 = ''Eg..''" by code_simp
  show ?thesis using codec_roundtrip_even_digits [of 18] e t by simp
qed

text \<open>
  Claim C5 as it is stated fails at 291 = 0x123, an integer of nine bits: its token is that
  of 0x12, and decoding gives 18.
\<close>

theorem codec_roundtrip_counterexample:
  "(0::int) \<le> 291 \<and> (291::int) < 2 ^ 72 \<and> encodeBase64UrlSafe 291 = ''Eg..''
   \<and> decodeBase64UrlSafe (encodeBase64UrlSafe 291) = Inr 18
   \<and> decodeBase64UrlSafe (encodeBase64UrlSafe 291) \<noteq> Inr 291"
  by code_simp

lemma unbase64_range: "unbase64 c = Some n \<Longrightarrow> is_sextet n"
  by (auto simp: unbase64_def Let_def is_sextet_def split: if_splits)

lemma map_filter_range:
  "(\<And>x y. f x = Some y \<Longrightarrow> P y) \<Longrightarrow> list_all P (List.map_filter f xs)"
  by (induction xs) (auto split: option.splits)

lemma sextets_of_range: "list_all is_sextet (sextets_of s)"
  unfolding sextets_of_def by (rule map_filter_range) (rule unbase64_range)

lemma decode_sextets_bytes:
  "list_all is_sextet ss \<Longrightarrow> list_all is_byte (decode_sextets ss)"
proof (induction ss rule: decode_sextets.induct)
  case (1 s1 s2 s3 s4 rest)
  then have r: "is_sextet s1" "is_sextet s2" "is_sextet s3" "is_sextet s4" "list_all is_sextet rest"
    by simp_all
  have "is_byte (s1 * 4 + s2 div 16)" "is_byte ((s2 mod 16) * 16 + s3 div 4)"
    "is_byte ((s3 mod 4) * 64 + s4)"
    using r(1-4) unfolding is_sextet_def is_byte_def by auto
  then show ?case using 1 r(5) by simp
next
  case (2 s1 s2 s3)
  then have r: "is_sextet s1" "is_sextet s2" "is_sextet s3" by simp_all
  have "is_byte (s1 * 4 + s2 div 16)" "is_byte ((s2 mod 16) * 16 + s3 div 4)"
    using r unfolding is_sextet_def is_byte_def by auto
  then show ?case by simp
next
  case (3 s1 s2)
  then have r: "is_sextet s1" "is_sextet s2" by simp_all
  have "is_byte (s1 * 4 + s2 div 16)"
    using r unfolding is_sextet_def is_byte_def by auto
  then show ?case by simp
qed simp_all

lemma from_base64_bytes: "list_all is_byte (Buffer_from_base64 s)"
  unfolding Buffer_from_base64_sextets by (rule decode_sextets_bytes[OF sextets_of_range])

lemma hex_value_toString_hex:
  "list_all is_byte bs \<Longrightarrow> \<exists>v. hex_value (Buffer_toString_hex bs) acc = Some v"
proof (induction bs arbitrary: acc)
  case Nil
  then show ?case by (simp add: Buffer_toString_hex_def)
next
  case (Cons b bs)
  then have bs: "list_all is_byte bs" by simp
  from Cons.prems have b: "0 \<le> b" "b < 256" by (simp_all add: is_byte_def)
  have h: "unhex (hex_digit (b div 16)) = Some (b div 16)" "unhex (hex_digit (b mod 16)) = Some (b mod 16)"
    using b by (simp_all add: unhex_hex_digit)
  have "Buffer_toString_hex (b # bs) = hex_digit (b div 16) # hex_digit (b mod 16) # Buffer_toString_hex bs"
    by (simp add: Buffer_toString_hex_def)
  then show ?case using Cons.IH[OF bs] by (simp add: h)
qed

lemma toString_hex_Nil: "Buffer_toString_hex bs = [] \<longleftrightarrow> bs = []"
  by (cases bs) (simp_all add: Buffer_toString_hex_def)

lemma decodeBase64UrlSafe_cases:
  "(decodeBase64UrlSafe s = Inl SyntaxError
      \<and> Buffer_from_base64 (replace_all (CHR ''.'') (CHR ''='') (replace_all (CHR ''_'') (CHR ''/'')
            (replace_all (CHR ''-'') (CHR ''+'') s))) = [])
   \<or> ((\<exists>v. decodeBase64UrlSafe s = Inr v)
      \<and> Buffer_from_base64 (replace_all (CHR ''.'') (CHR ''='') (replace_all (CHR ''_'') (CHR ''/'')
            (replace_all (CHR ''-'') (CHR ''+'') s))) \<noteq> [])"
proof -
  let ?bs = "Buffer_from_base64 (replace_all (CHR ''.'') (CHR ''='') (replace_all (CHR ''_'') (CHR ''/'')
            (replace_all (CHR ''-'') (CHR ''+'') s)))"
  have d: "decodeBase64UrlSafe s = BigInt_0x (Buffer_toString_hex ?bs)"
    by (simp add: decodeBase64UrlSafe_def)
  show ?thesis
  proof (cases "?bs = []")
    case True
    then show ?thesis unfolding d by (simp add: BigInt_0x_def Buffer_toString_hex_def)
  next
    case False
    obtain v where "hex_value (Buffer_toString_hex ?bs) 0 = Some v"
      using hex_value_toString_hex[OF from_base64_bytes] by blast
    then show ?thesis using False unfolding d by (simp add: BigInt_0x_def toString_hex_Nil)
  qed
qed

text \<open>
  Claim C7, as the code has it. \<open>parse\<close> validates nothing and \<open>Buffer.from(s, 'base64')\<close>
  never throws, so the only failure of \<open>parse\<close> on a string is the \<open>SyntaxError\<close> of
  \<open>BigInt('0x')\<close>, raised exactly when the lenient decoding of the string (after the reverse
  substitutions) yields no byte at all. On every other string, valid Base64 or not,
  \<open>parse\<close> returns the fields it reads from whatever bytes were decoded.
\<close>

theorem parse_string_error:
  "(parse (StringArg s) = Inl SyntaxError
      \<longleftrightarrow> Buffer_from_base64 (replace_all (CHR ''.'') (CHR ''='') (replace_all (CHR ''_'') (CHR ''/'')
            (replace_all (CHR ''-'') (CHR ''+'') s))) = [])
   \<and> ((\<exists>r. parse (StringArg s) = Inr r)
      \<longleftrightarrow> Buffer_from_base64 (replace_all (CHR ''.'') (CHR ''='') (replace_all (CHR ''_'') (CHR ''/'')
            (replace_all (CHR ''-'') (CHR ''+'') s))) \<noteq> [])"
  using decodeBase64UrlSafe_cases[of s] unfolding parse_String by auto

theorem parse_string_error_witness:
  "parse (StringArg ''!!'') = Inl SyntaxError
   \<and> Buffer_from_base64 (replace_all (CHR ''.'') (CHR ''='') (replace_all (CHR ''_'') (CHR ''/'')
            (replace_all (CHR ''-'') (CHR ''+'') ''!!''))) = []
   \<and> (\<exists>r. parse (StringArg ''AA'') = Inr r)
   \<and> Buffer_from_base64 (replace_all (CHR ''.'') (CHR ''='') (replace_all (CHR ''_'') (CHR ''/'')
            (replace_all (CHR ''-'') (CHR ''+'') ''AA''))) = [0]"
proof -
  have a: "Buffer_from_base64 (replace_all (CHR ''.'') (CHR ''='') (replace_all (CHR ''_'') (CHR ''/'')
            (replace_all (CHR ''-'') (CHR ''+'') ''!!''))) = []" by code_simp
  have b: "Buffer_from_base64 (replace_all (CHR ''.'') (CHR ''='') (replace_all (CHR ''_'') (CHR ''/'')
            (replace_all (CHR ''-'') (CHR ''+'') ''AA''))) = [0]" by code_simp
  show ?thesis
    using parse_string_error [of "''!!''"] parse_string_error [of "''AA''"] a b by simp
qed

text \<open>
  Claim C7 as it is stated fails at the string \<open>AAAA!\<close>, which is not Base64 text (five
  characters, one outside the alphabet): the decoder skips the \<open>!\<close>, three zero bytes come
  out, and \<open>parse\<close> returns a result with every field 0 instead of raising.
\<close>

theorem parse_invalid_base64_counterexample:
  "\<not> valid_base64 (replace_all (CHR ''.'') (CHR ''='') (replace_all (CHR ''_'') (CHR ''/'')
       (replace_all (CHR ''-'') (CHR ''+'') ''AAAA!'')))
   \<and> Buffer_from_base64 ''AAAA!'' = [0, 0, 0]
   \<and> decodeBase64UrlSafe ''AAAA!'' = Inr 0
   \<and> parse (StringArg ''AAAA!'') = Inr \<lparr>p_type = 0, p_shard = 0, p_seq = 0, p_msec = 0, p_sec = 0\<rparr>"
  by code_simp

section \<open>Where the code departs from its own contract\<close>

text \<open>
  Claim C8 at a hint of -1. The remainder \<open>%\<close> keeps the sign of the dividend, so
  \<open>generate\<close> takes the shard \<open>-1 % 1024 = -1\<close>: it counts under the key \<open>uuid:1:-1\<close> and
  returns the shard -1, which is no ten-bit value, while \<open>mixbit\<close> writes the low ten
  bits of -1 into the identifier, so that \<open>parse\<close> of the returned uuid gives the shard 1023.
\<close>

theorem generate_negative_hint:
  "js_rem (- 1) SHARD_SLOT = - 1
   \<and> fst (generate (- 1) 1700000000999 \<lparr>kv = Map.empty, up = True, sent = []\<rparr> 1)
       = Inr \<lparr>g_uuid = ''_OOWq_jCCCKC'', g_shard = - 1, g_sec = 1700000000, g_msec = 999, g_seq = 0\<rparr>
   \<and> sent (snd (generate (- 1) 1700000000999 \<lparr>kv = Map.empty, up = True, sent = []\<rparr> 1))
       = [Eval ''uuid:1:-1'']
   \<and> parse (StringArg ''_OOWq_jCCCKC'')
       = Inr \<lparr>p_type = 1, p_shard = 1023, p_seq = 0, p_msec = 999, p_sec = 1700000000\<rparr>"
  by code_simp

text \<open>
  Claim C9 on a store that cannot be reached. The command of \<open>generate\<close> is awaited, and
  its failure is the result of \<open>generate\<close>, after one attempt. The command of \<open>resetSeq\<close>
  fails in the same way, but its promise is dropped: \<open>resetSeq\<close> reports success.
\<close>

theorem resetSeq_store_failure_dropped:
  "fst (redis_del \<lparr>kv = Map.empty, up = False, sent = []\<rparr> (seqKey 1 0)) = Inl StoreError
   \<and> fst (resetSeq \<lparr>kv = Map.empty, up = False, sent = []\<rparr> 1 0) = Inr ()
   \<and> sent (snd (resetSeq \<lparr>kv = Map.empty, up = False, sent = []\<rparr> 1 0)) = [Del ''uuid:1:0'']
   \<and> fst (generate 0 1700000000999 \<lparr>kv = Map.empty, up = False, sent = []\<rparr> 1) = Inl StoreError
   \<and> sent (snd (generate 0 1700000000999 \<lparr>kv = Map.empty, up = False, sent = []\<rparr> 1))
       = [Eval ''uuid:1:0'']"
  by code_simp

end
